theory Spec2Isabelle
  imports Complex_Main "HOL-Library.Multiset"
begin

unbundle bit_operations_syntax

section \<open>The stab-query segment tree of \<^verbatim>\<open>stab_query_segment_tree.py\<close>\<close>

text \<open>
  The class \<^verbatim>\<open>SegmentTree\<close> keeps four private fields: \<^verbatim>\<open>__total\<close>,
  \<^verbatim>\<open>__tree\<close> (the flat array of node counts), \<^verbatim>\<open>__N\<close> (the leaf offset) and
  \<^verbatim>\<open>__points\<close> (the sorted coordinates). Python integers are unbounded, so they are
  \<^typ>\<open>int\<close>. The two exceptions the methods can raise are values of \<open>error\<close>:
  \<^verbatim>\<open>IndexError\<close> from a list subscript and \<^verbatim>\<open>ValueError\<close> ("math domain error")
  from \<^verbatim>\<open>math.log\<close>.

  Floating point. The source computes \<^verbatim>\<open>(l+1)/2\<close>, \<^verbatim>\<open>node/2\<close> and
  \<^verbatim>\<open>self.__total/2\<close> in floats and rounds them back with \<^verbatim>\<open>math.floor\<close> or
  \<^verbatim>\<open>int\<close>; below \<open>2 ^ 53\<close> these are exact, and they are modelled by integer
  division. \<^verbatim>\<open>math.log\<close> and \<^verbatim>\<open>**\<close> with a float exponent are modelled by the
  real functions \<^const>\<open>ln\<close> and \<^const>\<open>powr\<close>.
\<close>

datatype error = IndexError | ValueError

record segment_tree =
  st_total :: int
  st_tree :: "int list"
  st_N :: int
  st_points :: "int list"

subsection \<open>Python primitives\<close>

text \<open>A list subscript \<^verbatim>\<open>xs[i]\<close>: indices from \<open>-len\<close> to \<open>len - 1\<close> are valid, negative
  ones count from the end, every other index raises \<^verbatim>\<open>IndexError\<close>.\<close>

definition py_index :: "nat \<Rightarrow> int \<Rightarrow> nat option" where
  "py_index len i =
     (if 0 \<le> i \<and> i < int len then Some (nat i)
      else if - int len \<le> i \<and> i < 0 then Some (nat (i + int len))
      else None)"

text \<open>\<^verbatim>\<open>xs[i]\<close> as an expression.\<close>

definition py_get :: "int list \<Rightarrow> int \<Rightarrow> error + int" where
  "py_get xs i = (case py_index (length xs) i of None \<Rightarrow> Inl IndexError | Some k \<Rightarrow> Inr (xs ! k))"

text \<open>\<^verbatim>\<open>xs[i] += 1\<close>.\<close>

definition incr :: "int list \<Rightarrow> int \<Rightarrow> error + int list" where
  "incr xs i =
     (case py_index (length xs) i of None \<Rightarrow> Inl IndexError | Some k \<Rightarrow> Inr (xs[k := xs ! k + 1]))"

text \<open>\<^verbatim>\<open>int(t/2)\<close>: true division, then truncation towards zero.\<close>

definition int_half :: "int \<Rightarrow> int" where
  "int_half t = (if 0 \<le> t then t div 2 else - ((- t) div 2))"

text \<open>\<^verbatim>\<open>math.log(x)\<close>: the natural logarithm; a non-positive argument raises
  \<^verbatim>\<open>ValueError\<close>.\<close>

definition py_log :: "real \<Rightarrow> error + real" where
  "py_log x = (if x \<le> 0 then Inl ValueError else Inr (ln x))"

text \<open>\<^verbatim>\<open>bisect.bisect_right(a, x)\<close> of the standard library, with its default bounds
  \<open>lo = 0\<close> and \<open>hi = len(a)\<close>: the loop
  \<^verbatim>\<open>while lo < hi: mid = (lo + hi) // 2; if x < a[mid]: hi = mid else: lo = mid + 1\<close>.
  Every \<open>mid\<close> it reads lies below \<open>hi\<close>, hence inside the list.\<close>

function bisect_loop :: "int list \<Rightarrow> int \<Rightarrow> nat \<Rightarrow> nat \<Rightarrow> nat" where
  "bisect_loop a x lo hi =
     (if lo < hi
      then (if x < a ! ((lo + hi) div 2)
            then bisect_loop a x lo ((lo + hi) div 2)
            else bisect_loop a x ((lo + hi) div 2 + 1) hi)
      else lo)"
  by pat_completeness auto
termination
  by (relation "measure (\<lambda>(a, x, lo, hi). hi - lo)") auto

definition bisect_right :: "int list \<Rightarrow> int \<Rightarrow> int" where
  "bisect_right a x = int (bisect_loop a x 0 (length a))"

subsection \<open>\<^verbatim>\<open>SegmentTree.insert\<close>\<close>

text \<open>The loop of \<^verbatim>\<open>insert\<close> on the array, with \<open>l\<close> and \<open>r\<close> already offset by \<open>N\<close>.\<close>

function insert_loop :: "int list \<Rightarrow> int \<Rightarrow> int \<Rightarrow> error + int list" where
  "insert_loop t l r =
     (if l \<le> r
      then (case (if l mod 2 = 1 then incr t l else Inr t) of
              Inl e \<Rightarrow> Inl e
            | Inr t1 \<Rightarrow>
                (case (if r mod 2 = 0 then incr t1 r else Inr t1) of
                   Inl e \<Rightarrow> Inl e
                 | Inr t2 \<Rightarrow> insert_loop t2 ((l + 1) div 2) ((r - 1) div 2)))
      else Inr t)"
  by pat_completeness auto
termination
  by (relation "measure (\<lambda>(t, l, r). nat (r - l + 1))") auto

definition insert_seg :: "segment_tree \<Rightarrow> int \<Rightarrow> int \<Rightarrow> error + segment_tree" where
  "insert_seg st startpoint endpoint =
     (case insert_loop (st_tree st) (startpoint + st_N st) (endpoint + st_N st) of
        Inl e \<Rightarrow> Inl e
      | Inr t \<Rightarrow> Inr (st\<lparr>st_tree := t\<rparr>))"

subsection \<open>\<^verbatim>\<open>SegmentTree.__init__\<close>\<close>

text \<open>The fields as the constructor sets them before its loop over the segments.\<close>

definition init_tree :: "int list \<Rightarrow> segment_tree" where
  "init_tree points =
     \<lparr> st_total = 2 * int (length points) - 1,
       st_tree = replicate (nat (2 * int (length points) - 1 + 2)) 0,
       st_N = int_half (2 * int (length points) - 1) - 1,
       st_points = points \<rparr>"

text \<open>The compression of one endpoint, \<^verbatim>\<open>bisect.bisect_right(self.__points, x) + 1\<close>.\<close>

definition compress :: "int list \<Rightarrow> int \<Rightarrow> int" where
  "compress points x = bisect_right points x + 1"

text \<open>The constructor's loop over the segments; an exception leaves the loop.\<close>

fun insert_all :: "segment_tree \<Rightarrow> (int \<times> int) list \<Rightarrow> error + segment_tree" where
  "insert_all st [] = Inr st"
| "insert_all st ((startpoint, endpoint) # segments) =
     (case insert_seg st (compress (st_points st) startpoint) (compress (st_points st) endpoint) of
        Inl e \<Rightarrow> Inl e
      | Inr st' \<Rightarrow> insert_all st' segments)"

definition SegmentTree :: "int list \<Rightarrow> (int \<times> int) list \<Rightarrow> error + segment_tree" where
  "SegmentTree points segments = insert_all (init_tree points) segments"

subsection \<open>\<^verbatim>\<open>lowest_incomplete\<close>, \<^verbatim>\<open>complete\<close> and \<^verbatim>\<open>stab_query\<close>\<close>

text \<open>\<^verbatim>\<open>lowest_incomplete\<close> ignores its argument:
  \<^verbatim>\<open>t = math.log(N & -N); return int(math.floor(float(N) / 2 ** (1 + t)))\<close>.\<close>

definition lowest_incomplete :: "segment_tree \<Rightarrow> int \<Rightarrow> error + int" where
  "lowest_incomplete st node =
     (case py_log (real_of_int (st_N st AND - st_N st)) of
        Inl e \<Rightarrow> Inl e
      | Inr t \<Rightarrow> Inr \<lfloor>real_of_int (st_N st) / (2 powr (1 + t))\<rfloor>)"

text \<open>\<^verbatim>\<open>complete\<close>: the exponent is a difference of two floored logarithms, so
  \<^verbatim>\<open>2 ** ...\<close> is an integer power of two (a float when the exponent is negative).
  The arguments are evaluated left to right: \<^verbatim>\<open>lowest_incomplete\<close>, its logarithm,
  then the logarithm of \<open>node\<close>.\<close>

definition complete_node :: "segment_tree \<Rightarrow> int \<Rightarrow> error + bool" where
  "complete_node st node =
     (case lowest_incomplete st node of
        Inl e \<Rightarrow> Inl e
      | Inr li \<Rightarrow>
          (case py_log (real_of_int li) of
             Inl e \<Rightarrow> Inl e
           | Inr a \<Rightarrow>
               (case py_log (real_of_int node) of
                  Inl e \<Rightarrow> Inl e
                | Inr b \<Rightarrow>
                    Inr (node = \<lfloor>real_of_int li / (2 powr real_of_int (\<lfloor>a\<rfloor> - \<lfloor>b\<rfloor>))\<rfloor>))))"

text \<open>The ascent of \<^verbatim>\<open>stab_query\<close>. \<open>None\<close> would be a loop that never ends; that it
  never is \<open>None\<close> is a theorem below.\<close>

partial_function (option) stab_query_loop ::
    "segment_tree \<Rightarrow> int \<Rightarrow> int \<Rightarrow> (error + int) option" where
  "stab_query_loop st node cnt =
     (case complete_node st node of
        Inl e \<Rightarrow> Some (Inl e)
      | Inr c \<Rightarrow>
          if c then Some (Inr cnt)
          else (case py_get (st_tree st) node of
                  Inl e \<Rightarrow> Some (Inl e)
                | Inr v \<Rightarrow>
                    if node div 2 = 0 then Some (Inr (cnt + v))
                    else stab_query_loop st (node div 2) (cnt + v)))"

text \<open>The leaf a query point starts from,
  \<^verbatim>\<open>int(bisect.bisect_right(self.__points, point) + self.__N) + 1\<close>.\<close>

definition query_leaf :: "segment_tree \<Rightarrow> int \<Rightarrow> int" where
  "query_leaf st point = bisect_right (st_points st) point + st_N st + 1"

definition stab_query :: "segment_tree \<Rightarrow> int \<Rightarrow> (error + int) option" where
  "stab_query st point = stab_query_loop st (query_leaf st point) 0"

text \<open>A run as \<^verbatim>\<open>main\<close> and the tests make it: build the tree, then query it; an
  exception of the constructor ends the run.\<close>

definition query_after_build ::
    "int list \<Rightarrow> (int \<times> int) list \<Rightarrow> int \<Rightarrow> (error + int) option" where
  "query_after_build points segments point =
     (case SegmentTree points segments of
        Inl e \<Rightarrow> Some (Inl e)
      | Inr st \<Rightarrow> stab_query st point)"

subsection \<open>What the specification asks for\<close>

text \<open>In the specification's words: the number of intervals \<open>(start, end)\<close> of \<open>S\<close> with
  \<open>start \<le> p \<le> end\<close>, both ends inclusive.\<close>

definition spec_coverage :: "(int \<times> int) list \<Rightarrow> int \<Rightarrow> int" where
  "spec_coverage S p = int (length (filter (\<lambda>(s, e). s \<le> p \<and> p \<le> e) S))"

subsection \<open>The reference scenario of the test suite\<close>

text \<open>\<^verbatim>\<open>SolutionTest.test_toy_set\<close> draws \<open>100000\<close> distinct coordinates from
  \<^verbatim>\<open>range(10000, 1000000)\<close>, appends thirteen fixed ones and sorts the list; its segments
  are random pairs of drawn coordinates, of which only those with \<open>start > end\<close> are kept,
  followed by nine fixed intervals. The drawn coordinates and the kept random pairs are the
  parameters \<open>sample\<close> and \<open>filler\<close>.\<close>

definition reference_points :: "int list \<Rightarrow> int list" where
  "reference_points sample =
     sort (sample @ [3, 4, 6, 7, 8, 9, 10, 20, 50, 76, 89, 1000, 7000000])"

definition reference_segments :: "(int \<times> int) list \<Rightarrow> (int \<times> int) list" where
  "reference_segments filler =
     filler @ [(3, 4), (3, 4), (3, 4), (3, 4), (3, 6), (10, 20), (6, 50), (3, 3), (1000, 7000000)]"

subsection \<open>A counting function for the proofs\<close>

text \<open>How often the loop of \<^verbatim>\<open>insert\<close>, started at \<open>l\<close> and \<open>r\<close>, increments index \<open>i\<close>:
  the recursion of \<open>insert_loop\<close> with the array left out. It is used only to state what
  the loop does to the array.\<close>

function marks :: "int \<Rightarrow> int \<Rightarrow> int \<Rightarrow> int" where
  "marks l r i =
     (if l \<le> r
      then (if l mod 2 = 1 \<and> i = l then 1 else 0) + (if r mod 2 = 0 \<and> i = r then 1 else 0)
           + marks ((l + 1) div 2) ((r - 1) div 2) i
      else 0)"
  by pat_completeness auto
termination
  by (relation "measure (\<lambda>(l, r, i). nat (r - l + 1))") auto

declare bisect_loop.simps [simp del] insert_loop.simps [simp del] marks.simps [simp del]

section \<open>Logarithms of integers\<close>

text \<open>Twelve terms of the exponential series enclose \<open>e\<close> between two rationals.\<close>

lemma e_bounds: "2718281 / 1000000 < exp (1::real) \<and> exp (1::real) < 1359141 / 500000"
proof -
  obtain t :: real where t: "\<bar>t\<bar> \<le> \<bar>1\<bar>"
    and e: "exp (1::real) = (\<Sum>m<12. (1 ^ m) / fact m) + (exp t / fact 12) * 1 ^ 12"
    using Maclaurin_exp_le [of 1 12] by blast
  have s: "(\<Sum>m<12. (1 ^ m) / fact m) = (13563139 / 4989600 :: real)"
    by (simp add: numeral_eq_Suc fact_reduce)
  have f: "fact 12 = (479001600::real)"
    by (simp add: numeral_eq_Suc fact_reduce)
  have "t \<le> 1" using t by simp
  then have "exp t \<le> exp 1" by simp
  also have "\<dots> \<le> 3" by (rule exp_le)
  finally have up: "exp t \<le> 3" .
  have "exp (1::real) = 13563139 / 4989600 + exp t / 479001600"
    using e s f by simp
  then show ?thesis using up exp_gt_zero [of t] by linarith
qed

text \<open>Hence \<open>\<lfloor>ln x\<rfloor> = k\<close> follows from two comparisons of integers.\<close>

lemma floor_ln_eqI:
  fixes x :: int and k :: nat
  assumes lo: "1359141 ^ k \<le> x * 500000 ^ k"
      and hi: "x * 1000000 ^ (k + 1) < 2718281 ^ (k + 1)"
  shows "\<lfloor>ln (real_of_int x)\<rfloor> = int k"
proof -
  have xpos: "0 < x"
  proof (rule ccontr)
    assume "\<not> 0 < x"
    then have "x * 500000 ^ k \<le> 0" by (simp add: mult_le_0_iff)
    moreover have "(0::int) < 1359141 ^ k" by simp
    ultimately show False using lo by linarith
  qed
  have en: "exp (real j) = exp 1 ^ j" for j :: nat
    by (simp add: exp_of_nat_mult [symmetric])
  have "exp (real k) = exp 1 ^ k" by (rule en)
  also have "\<dots> \<le> (1359141 / 500000) ^ k"
    using e_bounds by (intro power_mono) auto
  also have "\<dots> \<le> real_of_int x"
  proof -
    have "real_of_int (1359141 ^ k) \<le> real_of_int (x * 500000 ^ k)"
      using lo by (rule of_int_le_iff [THEN iffD2])
    then show ?thesis by (simp add: power_divide divide_le_eq)
  qed
  finally have below: "real k \<le> ln (real_of_int x)"
    using xpos by (simp add: ln_ge_iff)
  have "real_of_int x < (2718281 / 1000000) ^ (k + 1)"
  proof -
    have "real_of_int (x * 1000000 ^ (k + 1)) < real_of_int (2718281 ^ (k + 1))"
      using hi by (rule of_int_less_iff [THEN iffD2])
    then show ?thesis by (simp add: power_divide less_divide_eq)
  qed
  also have "\<dots> \<le> exp 1 ^ (k + 1)"
    using e_bounds by (intro power_mono) auto
  also have "\<dots> = exp (real (k + 1))" by (rule en [symmetric])
  finally have "exp (ln (real_of_int x)) < exp (real (k + 1))"
    using xpos by simp
  then have above: "ln (real_of_int x) < real (k + 1)"
    by (simp only: exp_less_cancel_iff)
  show ?thesis using below above by (intro floor_unique) auto
qed

section \<open>The stopping rule when \<open>N\<close> is odd\<close>

text \<open>For odd \<open>N\<close> the lowest set bit is 1, its logarithm is 0 and every float operation
  of \<^verbatim>\<open>lowest_incomplete\<close> is exact: the result is \<open>N div 2\<close>.\<close>

lemma lowbit_odd: "odd (n::int) \<Longrightarrow> n AND - n = 1"
proof -
  assume "odd n"
  then obtain k where n: "n = 2 * k + 1" by (auto elim: oddE)
  have "- n = 2 * (NOT k) + 1" by (simp add: n not_int_def)
  then show ?thesis by (simp add: n and_int_rec [of "2 * k + 1"])
qed

lemma lowest_incomplete_odd:
  assumes "odd (st_N st)"
  shows "lowest_incomplete st node = Inr (st_N st div 2)"
proof -
  have "\<lfloor>real_of_int (st_N st) / 2\<rfloor> = st_N st div 2"
    using floor_divide_of_int_eq [of "st_N st" 2, where ?'a = real] by simp
  then show ?thesis
    using assms by (simp add: lowest_incomplete_def lowbit_odd py_log_def)
qed

lemma floor_div_powr_nonneg:
  assumes "0 \<le> d"
  shows "\<lfloor>real_of_int li / (2 powr real_of_int d)\<rfloor> = li div 2 ^ nat d"
proof -
  have "(2::real) powr real_of_int d = 2 powr real (nat d)" using assms by simp
  also have "\<dots> = real_of_int (2 ^ nat d)" by (simp add: powr_realpow)
  finally have p: "(2::real) powr real_of_int d = real_of_int (2 ^ nat d)" .
  show ?thesis unfolding p by (rule floor_divide_of_int_eq)
qed

lemma floor_div_powr_neg:
  assumes "d < 0"
  shows "\<lfloor>real_of_int li / (2 powr real_of_int d)\<rfloor> = li * 2 ^ nat (- d)"
proof -
  have "(2::real) powr real_of_int d = 2 powr (- real (nat (- d)))" using assms by simp
  also have "\<dots> = 1 / real_of_int (2 ^ nat (- d))"
    by (simp add: powr_minus powr_realpow divide_inverse)
  finally have p: "(2::real) powr real_of_int d = 1 / real_of_int (2 ^ nat (- d))" .
  have "real_of_int li / (2 powr real_of_int d) = real_of_int (li * 2 ^ nat (- d))"
    unfolding p by simp
  then show ?thesis by (simp only: floor_of_int)
qed

lemma floor_div_powr_diff:
  "\<lfloor>real_of_int li / (2 powr (real_of_int a - real_of_int b))\<rfloor> =
     (if b \<le> a then li div 2 ^ nat (a - b) else li * 2 ^ nat (b - a))"
  using floor_div_powr_nonneg [of "a - b" li] floor_div_powr_neg [of "a - b" li] by simp

lemma complete_node_odd:
  assumes "odd (st_N st)" and "0 < st_N st div 2" and "0 < node"
  shows "complete_node st node =
    Inr (node = (if \<lfloor>ln (real_of_int node)\<rfloor> \<le> \<lfloor>ln (real_of_int (st_N st div 2))\<rfloor>
                 then st_N st div 2 div
                      2 ^ nat (\<lfloor>ln (real_of_int (st_N st div 2))\<rfloor> - \<lfloor>ln (real_of_int node)\<rfloor>)
                 else st_N st div 2 *
                      2 ^ nat (\<lfloor>ln (real_of_int node)\<rfloor> - \<lfloor>ln (real_of_int (st_N st div 2))\<rfloor>)))"
  using assms
  by (simp add: complete_node_def lowest_incomplete_odd py_log_def floor_div_powr_diff)

lemma complete_node_raises:
  assumes "odd (st_N st)" and "st_N st div 2 \<le> 0"
  shows "complete_node st node = Inl ValueError"
  using assms by (simp add: complete_node_def lowest_incomplete_odd py_log_def)

section \<open>Failing runs of the stopping rule\<close>

text \<open>
  Claim C1 (count invariant and boundary exactness): \<open>stab_query(p)\<close> is the number of
  inserted intervals with \<open>start \<le> p \<le> end\<close>, and a point equal to an interval's start or
  end is counted. On the seven coordinates \<open>1, \<dots>, 7\<close>, which are exactly the endpoints of
  the intervals \<open>(1,2), (2,3), (4,5), (6,7)\<close>, the offset is \<open>N = 5\<close>, so
  \<^verbatim>\<open>lowest_incomplete\<close> is \<open>2\<close>. The point \<open>2\<close> starts at leaf \<open>8\<close>, where
  \<^verbatim>\<open>complete\<close> computes \<open>floor(2 / 2 ** (0 - 2)) = 8\<close> and answers true: the loop body
  never runs and the query returns \<open>0\<close>, although two intervals contain the point \<open>2\<close>
  (it is the end of one and the start of the other).
\<close>

theorem stab_query_misses_boundary_point:
  "query_after_build [1, 2, 3, 4, 5, 6, 7] [(1, 2), (2, 3), (4, 5), (6, 7)] 2 = Some (Inr 0)
   \<and> spec_coverage [(1, 2), (2, 3), (4, 5), (6, 7)] 2 = 2"
proof -
  have built: "SegmentTree [1, 2, 3, 4, 5, 6, 7] [(1, 2), (2, 3), (4, 5), (6, 7)] =
      Inr \<lparr>st_total = 13, st_tree = [0, 0, 0, 0, 1, 1, 1, 1, 1, 0, 0, 0, 0, 0, 0], st_N = 5,
           st_points = [1, 2, 3, 4, 5, 6, 7]\<rparr>"
    by code_simp
  have l2: "\<lfloor>ln (2::real)\<rfloor> = 0" using floor_ln_eqI [of 0 2] by simp
  have l8: "\<lfloor>ln (8::real)\<rfloor> = 2" using floor_ln_eqI [of 2 8] by simp
  have leaf: "bisect_right [1, 2, 3, 4, 5, 6, 7] 2 = 2"
    by (simp add: bisect_right_def bisect_loop.simps)
  have "complete_node \<lparr>st_total = 13, st_tree = [0, 0, 0, 0, 1, 1, 1, 1, 1, 0, 0, 0, 0, 0, 0],
           st_N = 5, st_points = [1, 2, 3, 4, 5, 6, 7]\<rparr> 8 = Inr True"
    by (simp add: complete_node_odd l2 l8)
  then show ?thesis
    by (simp add: query_after_build_def built stab_query_def query_leaf_def leaf
        stab_query_loop.simps spec_coverage_def)
qed

text \<open>
  Claim C3 (no error on any query of a tree with a non-empty coordinate set): with the three
  coordinates \<open>1, 2, 3\<close> the offset is \<open>N = 1\<close> and \<^verbatim>\<open>lowest_incomplete\<close> returns
  \<open>floor(1 / 2) = 0\<close>; \<^verbatim>\<open>complete\<close> then calls \<^verbatim>\<open>math.log(0)\<close>, which raises
  \<^verbatim>\<open>ValueError\<close> at the first node the query visits.
\<close>

theorem stab_query_raises_on_three_points:
  "query_after_build [1, 2, 3] [(1, 2), (2, 3)] 2 = Some (Inl ValueError)"
proof -
  have built: "SegmentTree [1, 2, 3] [(1, 2), (2, 3)] =
      Inr \<lparr>st_total = 5, st_tree = [0, 0, 1, 1, 1, 0, 0], st_N = 1, st_points = [1, 2, 3]\<rparr>"
    by code_simp
  show ?thesis
    by (simp add: query_after_build_def built stab_query_def stab_query_loop.simps
        complete_node_raises)
qed

section \<open>Binary search\<close>

lemma bisect_loop_left:
  "lo < hi \<Longrightarrow> x < a ! ((lo + hi) div 2) \<Longrightarrow>
     bisect_loop a x lo hi = bisect_loop a x lo ((lo + hi) div 2)"
  by (subst bisect_loop.simps) simp

lemma bisect_loop_right:
  "lo < hi \<Longrightarrow> \<not> x < a ! ((lo + hi) div 2) \<Longrightarrow>
     bisect_loop a x lo hi = bisect_loop a x ((lo + hi) div 2 + 1) hi"
  by (subst bisect_loop.simps) simp

lemma bisect_loop_done: "\<not> lo < hi \<Longrightarrow> bisect_loop a x lo hi = lo"
  by (subst bisect_loop.simps) simp

lemma bisect_loop_bounds:
  "lo \<le> hi \<Longrightarrow> lo \<le> bisect_loop a x lo hi \<and> bisect_loop a x lo hi \<le> hi"
proof (induction a x lo hi rule: bisect_loop.induct)
  case (1 a x lo hi)
  show ?case
  proof (cases "lo < hi")
    case False
    with 1(3) show ?thesis by (simp add: bisect_loop_done)
  next
    case True
    then have m: "lo \<le> (lo + hi) div 2" "(lo + hi) div 2 + 1 \<le> hi" by auto
    show ?thesis
    proof (cases "x < a ! ((lo + hi) div 2)")
      case left: True
      from 1(1) [OF True left m(1)] m show ?thesis
        by (simp add: bisect_loop_left [OF True left])
    next
      case right: False
      from 1(2) [OF True right m(2)] m show ?thesis
        by (simp add: bisect_loop_right [OF True right])
    qed
  qed
qed

lemma bisect_loop_sorted:
  assumes "sorted a" and "hi \<le> length a" and "lo \<le> hi"
      and "\<forall>j<lo. a ! j \<le> x" and "\<forall>j. hi \<le> j \<and> j < length a \<longrightarrow> x < a ! j"
  shows "(\<forall>j<bisect_loop a x lo hi. a ! j \<le> x)
       \<and> (\<forall>j. bisect_loop a x lo hi \<le> j \<and> j < length a \<longrightarrow> x < a ! j)"
  using assms
proof (induction a x lo hi rule: bisect_loop.induct)
  case (1 a x lo hi)
  show ?case
  proof (cases "lo < hi")
    case False
    with 1(5) have "lo = hi" by simp
    with 1(6,7) show ?thesis by (simp add: bisect_loop_done)
  next
    case True
    let ?mid = "(lo + hi) div 2"
    from True have m: "lo \<le> ?mid" "?mid < hi" "?mid + 1 \<le> hi" by auto
    show ?thesis
    proof (cases "x < a ! ?mid")
      case left: True
      have above: "\<forall>j. ?mid \<le> j \<and> j < length a \<longrightarrow> x < a ! j"
      proof (intro allI impI)
        fix j assume j: "?mid \<le> j \<and> j < length a"
        then have "a ! ?mid \<le> a ! j" using \<open>sorted a\<close> by (simp add: sorted_iff_nth_mono)
        with left show "x < a ! j" by simp
      qed
      have hi': "?mid \<le> length a" using m(2) 1(4) by simp
      show ?thesis
        using 1(1) [OF True left \<open>sorted a\<close> hi' m(1) 1(6) above]
        by (simp only: bisect_loop_left [OF True left])
    next
      case right: False
      have below: "\<forall>j<?mid + 1. a ! j \<le> x"
      proof (intro allI impI)
        fix j assume j: "j < ?mid + 1"
        have "?mid < length a" using m(2) 1(4) by simp
        with j have "a ! j \<le> a ! ?mid"
          using \<open>sorted a\<close> by (simp add: sorted_iff_nth_mono)
        with right show "a ! j \<le> x" by simp
      qed
      show ?thesis
        using 1(2) [OF True right \<open>sorted a\<close> 1(4) m(3) below 1(7)]
        by (simp only: bisect_loop_right [OF True right])
    qed
  qed
qed

lemma count_le_split:
  fixes a :: "int list"
  assumes "r \<le> length a" and "\<forall>j<r. a ! j \<le> x"
      and "\<forall>j. r \<le> j \<and> j < length a \<longrightarrow> x < a ! j"
  shows "length (filter (\<lambda>c. c \<le> x) a) = r"
proof -
  have "\<forall>c\<in>set (take r a). c \<le> x"
  proof
    fix c assume "c \<in> set (take r a)"
    then obtain j where "j < length (take r a)" "take r a ! j = c"
      by (auto simp: in_set_conv_nth)
    then show "c \<le> x" using assms(1,2) by auto
  qed
  then have t: "filter (\<lambda>c. c \<le> x) (take r a) = take r a"
    by (simp add: filter_id_conv)
  have "\<forall>c\<in>set (drop r a). \<not> c \<le> x"
  proof
    fix c assume "c \<in> set (drop r a)"
    then obtain j where j: "j < length (drop r a)" "drop r a ! j = c"
      by (auto simp: in_set_conv_nth)
    then have "r + j < length a" "a ! (r + j) = c" using assms(1) by auto
    then have "x < c" using assms(3) by (metis le_add1)
    then show "\<not> c \<le> x" by simp
  qed
  then have d: "filter (\<lambda>c. c \<le> x) (drop r a) = []"
    by (simp add: filter_empty_conv)
  have "filter (\<lambda>c. c \<le> x) a
      = filter (\<lambda>c. c \<le> x) (take r a) @ filter (\<lambda>c. c \<le> x) (drop r a)"
    by (simp flip: filter_append)
  then show ?thesis using assms(1) by (simp add: t d)
qed

lemma bisect_right_range: "0 \<le> bisect_right a x \<and> bisect_right a x \<le> int (length a)"
  using bisect_loop_bounds [of 0 "length a" a x] by (simp add: bisect_right_def)

lemma bisect_right_sorted:
  assumes "sorted a"
  shows "bisect_right a x = int (length (filter (\<lambda>c. c \<le> x) a))"
proof -
  let ?r = "bisect_loop a x 0 (length a)"
  have "?r \<le> length a" using bisect_loop_bounds [of 0 "length a" a x] by simp
  moreover have "(\<forall>j<?r. a ! j \<le> x) \<and> (\<forall>j. ?r \<le> j \<and> j < length a \<longrightarrow> x < a ! j)"
    using assms by (intro bisect_loop_sorted) auto
  ultimately have "length (filter (\<lambda>c. c \<le> x) a) = ?r"
    by (intro count_le_split) auto
  then show ?thesis by (simp add: bisect_right_def)
qed

section \<open>What \<open>insert\<close> does to the array\<close>

lemma incr_in_range:
  "0 \<le> i \<Longrightarrow> i < int (length t) \<Longrightarrow> incr t i = Inr (t[nat i := t ! nat i + 1])"
  by (simp add: incr_def py_index_def)

lemma marks_done: "\<not> l \<le> r \<Longrightarrow> marks l r i = 0"
  by (subst marks.simps) simp

lemma marks_step:
  "l \<le> r \<Longrightarrow> marks l r i =
     (if l mod 2 = 1 \<and> i = l then 1 else 0) + (if r mod 2 = 0 \<and> i = r then 1 else 0)
     + marks ((l + 1) div 2) ((r - 1) div 2) i"
  by (subst marks.simps) simp

lemma insert_loop_done: "\<not> l \<le> r \<Longrightarrow> insert_loop t l r = Inr t"
  by (subst insert_loop.simps) simp

lemma insert_loop_marks:
  "0 \<le> l \<Longrightarrow> r < int (length t) \<Longrightarrow>
     insert_loop t l r = Inr (map (\<lambda>i. t ! i + marks l r (int i)) [0..<length t])"
proof (induction t l r rule: insert_loop.induct)
  case (1 t l r)
  show ?case
  proof (cases "l \<le> r")
    case False
    then show ?thesis by (simp add: insert_loop_done marks_done map_nth)
  next
    case True
    define t1 where "t1 = (if l mod 2 = 1 then t[nat l := t ! nat l + 1] else t)"
    define t2 where "t2 = (if r mod 2 = 0 then t1[nat r := t1 ! nat r + 1] else t1)"
    have len: "length t1 = length t" "length t2 = length t"
      by (simp_all add: t1_def t2_def)
    have lr: "0 \<le> l" "l < int (length t)" "0 \<le> r" "r < int (length t)"
      using True 1(2,3) by auto
    have s1: "(if l mod 2 = 1 then incr t l else Inr t) = Inr t1"
      using lr by (simp add: t1_def incr_in_range)
    have s2: "(if r mod 2 = 0 then incr t1 r else Inr t1) = Inr t2"
      using lr len by (simp add: t2_def incr_in_range)
    have step: "insert_loop t l r = insert_loop t2 ((l + 1) div 2) ((r - 1) div 2)"
      using True s1 s2 by (subst insert_loop.simps) simp
    have b: "0 \<le> (l + 1) div 2" "(r - 1) div 2 < int (length t2)"
      using lr len by auto
    have IH: "insert_loop t2 ((l + 1) div 2) ((r - 1) div 2) =
        Inr (map (\<lambda>i. t2 ! i + marks ((l + 1) div 2) ((r - 1) div 2) (int i)) [0..<length t2])"
      using 1(1) [OF True s1 s2 b] .
    have pt: "t2 ! i = t ! i + (if l mod 2 = 1 \<and> int i = l then 1 else 0)
                            + (if r mod 2 = 0 \<and> int i = r then 1 else 0)"
      if "i < length t" for i
    proof -
      have e1: "t1 ! i = t ! i + (if l mod 2 = 1 \<and> int i = l then 1 else 0)"
        using that lr by (auto simp: t1_def nth_list_update)
      have e2: "t2 ! i = t1 ! i + (if r mod 2 = 0 \<and> int i = r then 1 else 0)"
        using that lr len by (auto simp: t2_def nth_list_update)
      show ?thesis using e1 e2 by simp
    qed
    have "map (\<lambda>i. t2 ! i + marks ((l + 1) div 2) ((r - 1) div 2) (int i)) [0..<length t2]
        = map (\<lambda>i. t ! i + marks l r (int i)) [0..<length t]"
      using pt by (simp add: len marks_step [OF True])
    then show ?thesis using step IH by simp
  qed
qed

section \<open>What the constructor builds\<close>

lemma init_tree_N:
  "st_N (init_tree points) = (if points = [] then - 1 else int (length points) - 2)"
proof (cases points)
  case Nil
  then show ?thesis by (simp add: init_tree_def int_half_def)
next
  case (Cons c cs)
  then have "(2 * int (length points) - 1) div 2 = int (length points) - 1" by simp
  then show ?thesis using Cons by (simp add: init_tree_def int_half_def)
qed

lemma init_tree_array: "st_tree (init_tree points) = replicate (2 * length points + 1) 0"
proof -
  have "nat (2 * int (length points) - 1 + 2) = 2 * length points + 1" by simp
  then show ?thesis by (simp add: init_tree_def)
qed

lemma init_tree_points: "st_points (init_tree points) = points"
  by (simp add: init_tree_def)

lemma init_tree_leaf_range:
  "0 \<le> compress points x + st_N (init_tree points)
   \<and> compress points x + st_N (init_tree points) < int (length (st_tree (init_tree points)))"
proof (cases points)
  case Nil
  then show ?thesis
    using bisect_right_range [of points x] by (simp add: init_tree_N init_tree_array compress_def)
next
  case (Cons c cs)
  then have "0 < int (length points)" by simp
  then show ?thesis
    using bisect_right_range [of points x] Cons
    by (simp add: init_tree_N init_tree_array compress_def)
qed

lemma insert_all_marks:
  assumes "\<forall>p\<in>set segs. 0 \<le> compress (st_points st) (fst p) + st_N st
              \<and> compress (st_points st) (snd p) + st_N st < int (length (st_tree st))"
  shows "insert_all st segs =
    Inr (st\<lparr>st_tree := map (\<lambda>i. st_tree st ! i
               + sum_list (map (\<lambda>p. marks (compress (st_points st) (fst p) + st_N st)
                                          (compress (st_points st) (snd p) + st_N st) (int i)) segs))
             [0..<length (st_tree st)]\<rparr>)"
  using assms
proof (induction segs arbitrary: st)
  case Nil
  show ?case by (simp add: map_nth)
next
  case (Cons p segs)
  obtain s e where p: "p = (s, e)" by (cases p)
  let ?l = "compress (st_points st) s + st_N st"
  let ?r = "compress (st_points st) e + st_N st"
  let ?t' = "map (\<lambda>i. st_tree st ! i + marks ?l ?r (int i)) [0..<length (st_tree st)]"
  let ?st' = "st\<lparr>st_tree := ?t'\<rparr>"
  have rng: "0 \<le> ?l" "?r < int (length (st_tree st))" using Cons.prems p by auto
  have one: "insert_seg st (compress (st_points st) s) (compress (st_points st) e) = Inr ?st'"
    using insert_loop_marks [OF rng] by (simp add: insert_seg_def)
  have "\<forall>q\<in>set segs. 0 \<le> compress (st_points ?st') (fst q) + st_N ?st'
              \<and> compress (st_points ?st') (snd q) + st_N ?st' < int (length (st_tree ?st'))"
    using Cons.prems by simp
  from Cons.IH [OF this] one show ?case
    by (simp add: p add.assoc)
qed

lemma SegmentTree_marks:
  "SegmentTree points segs =
    Inr ((init_tree points)\<lparr>st_tree :=
       map (\<lambda>i. sum_list (map (\<lambda>p. marks (compress points (fst p) + st_N (init_tree points))
                                        (compress points (snd p) + st_N (init_tree points)) (int i)) segs))
           [0..<2 * length points + 1]\<rparr>)"
proof -
  have "\<forall>p\<in>set segs. 0 \<le> compress (st_points (init_tree points)) (fst p) + st_N (init_tree points)
      \<and> compress (st_points (init_tree points)) (snd p) + st_N (init_tree points)
          < int (length (st_tree (init_tree points)))"
    using init_tree_leaf_range by (simp add: init_tree_points)
  from insert_all_marks [OF this]
  have e: "SegmentTree points segs =
    Inr ((init_tree points)\<lparr>st_tree :=
       map (\<lambda>i. st_tree (init_tree points) ! i
                + sum_list (map (\<lambda>p. marks (compress points (fst p) + st_N (init_tree points))
                                        (compress points (snd p) + st_N (init_tree points)) (int i)) segs))
           [0..<length (st_tree (init_tree points))]\<rparr>)"
    by (simp add: SegmentTree_def init_tree_points)
  define K where "K = 2 * length points + 1"
  have a: "st_tree (init_tree points) = replicate K 0"
    by (simp only: init_tree_array K_def)
  have "map (\<lambda>i. replicate K 0 ! i + g i) [0..<K] = map g [0..<K]" for g :: "nat \<Rightarrow> int"
    by (rule map_cong) auto
  then show ?thesis unfolding e a by (simp add: K_def)
qed

lemma marks_nonneg: "0 \<le> marks l r i"
proof (induction l r i rule: marks.induct)
  case (1 l r i)
  show ?case
  proof (cases "l \<le> r")
    case True
    with 1 [OF True] show ?thesis by (simp add: marks_step)
  next
    case False
    then show ?thesis by (simp add: marks_done)
  qed
qed

lemma SegmentTree_fields:
  assumes "SegmentTree points segs = Inr T"
  shows "st_N T = (if points = [] then - 1 else int (length points) - 2)"
    and "st_points T = points"
    and "length (st_tree T) = 2 * length points + 1"
    and "\<forall>v\<in>set (st_tree T). 0 \<le> v"
proof -
  let ?f = "\<lambda>i. sum_list (map (\<lambda>p. marks (compress points (fst p) + st_N (init_tree points))
                                        (compress points (snd p) + st_N (init_tree points)) (int i)) segs)"
  have T: "T = (init_tree points)\<lparr>st_tree := map ?f [0..<2 * length points + 1]\<rparr>"
    using assms unfolding SegmentTree_marks by simp
  show "st_N T = (if points = [] then - 1 else int (length points) - 2)"
    unfolding T by (simp add: init_tree_N)
  show "st_points T = points" unfolding T by (simp add: init_tree_points)
  show "length (st_tree T) = 2 * length points + 1" unfolding T by simp
  have "0 \<le> sum_list (map (\<lambda>p. marks (compress points (fst p) + st_N (init_tree points))
                                        (compress points (snd p) + st_N (init_tree points)) j) segs)"
    for j by (rule sum_list_nonneg) (auto simp: marks_nonneg)
  then show "\<forall>v\<in>set (st_tree T). 0 \<le> v" unfolding T by auto
qed

section \<open>The fields the constructor sets\<close>

text \<open>
  Claim C4, as stated (the leaf offset is \<open>N = n - 1\<close>), fails: three coordinates give
  \<open>N = 1\<close>.
\<close>

theorem leaf_offset_counterexample:
  "st_N (init_tree [1, 2, 3]) \<noteq> int (length [1, 2, 3 :: int]) - 1"
  by (simp add: init_tree_N)


text \<open>
  Claim C4, amended: for every non-empty coordinate list of size \<open>n\<close> and every list of
  segments the constructor succeeds and its leaf offset is \<open>N = n - 2\<close>, the value of
  \<^verbatim>\<open>int(self.__total/2) - 1\<close> for \<open>total = 2n - 1\<close>.
\<close>

theorem leaf_offset_is_n_minus_2:
  "points \<noteq> [] \<Longrightarrow>
     \<exists>T. SegmentTree points segments = Inr T \<and> st_N T = int (length points) - 2"
  using SegmentTree_fields(1) [of points segments] SegmentTree_marks [of points segments]
  by simp

theorem leaf_offset_is_n_minus_2_witness:
  "[1, 2, 3 :: int] \<noteq> [] \<and>
   (\<exists>T. SegmentTree [1, 2, 3] [(1, 2), (2, 3)] = Inr T \<and> st_N T = int (length [1, 2, 3 :: int]) - 2)"
  using leaf_offset_is_n_minus_2 [of "[1, 2, 3]" "[(1, 2), (2, 3)]"] by simp

text \<open>
  Claim C5, as stated (the array has exactly \<open>2n\<close> entries), fails: three coordinates give
  seven entries.
\<close>

theorem array_size_counterexample:
  "length (st_tree (init_tree [1, 2, 3])) \<noteq> 2 * length [1, 2, 3 :: int]"
  by (simp add: init_tree_array)


text \<open>
  Claim C5, amended: before any interval is inserted the array has exactly \<open>2n + 1\<close>
  entries, all zero (\<^verbatim>\<open>[0] * int(self.__total + 2)\<close> with \<open>total = 2n - 1\<close>), and a
  constructor given no segment returns just these fields.
\<close>

theorem array_is_2n_plus_1_zeros:
  "st_tree (init_tree points) = replicate (2 * length points + 1) 0
   \<and> SegmentTree points [] = Inr (init_tree points)"
  by (simp add: init_tree_array SegmentTree_def)

section \<open>Compression\<close>

text \<open>
  Claim C6: for a sorted coordinate list, the compression of an endpoint in the constructor
  is the number of coordinates \<open>\<le> x\<close> plus one, and the leaf a query point starts from is
  that same compression plus the offset \<open>N\<close>, which is the index \<^verbatim>\<open>insert\<close> computes
  for an endpoint (\<open>startpoint + N\<close>).
\<close>

theorem compression_shared:
  assumes "sorted points" and "SegmentTree points segments = Inr T"
  shows "compress points x = int (length (filter (\<lambda>c. c \<le> x) points)) + 1
       \<and> query_leaf T x = compress points x + st_N T"
  using assms SegmentTree_fields(2) [OF assms(2)]
  by (simp add: compress_def query_leaf_def bisect_right_sorted)

theorem compression_shared_witness:
  "sorted [1, 3, 5 :: int]
   \<and> SegmentTree [1, 3, 5] [(1, 3), (3, 5)] =
       Inr \<lparr>st_total = 5, st_tree = [0, 0, 1, 1, 1, 0, 0], st_N = 1, st_points = [1, 3, 5]\<rparr>
   \<and> compress [1, 3, 5] 4 = 3
   \<and> query_leaf \<lparr>st_total = 5, st_tree = [0, 0, 1, 1, 1, 0, 0], st_N = 1, st_points = [1, 3, 5]\<rparr> 4 = 4"
proof -
  have s: "sorted [1, 3, 5 :: int]" by simp
  have b: "SegmentTree [1, 3, 5] [(1, 3), (3, 5)] =
       Inr \<lparr>st_total = 5, st_tree = [0, 0, 1, 1, 1, 0, 0], st_N = 1, st_points = [1, 3, 5]\<rparr>"
    by code_simp
  show ?thesis using s b compression_shared [OF s b, of 4] by simp
qed

section \<open>Inverted intervals\<close>

lemma filter_le_strict:
  fixes xs :: "int list"
  assumes "s \<in> set xs" and "e < s"
  shows "length (filter (\<lambda>c. c \<le> e) xs) < length (filter (\<lambda>c. c \<le> s) xs)"
  using assms(1)
proof (induction xs)
  case Nil
  then show ?case by simp
next
  case (Cons c cs)
  have mono: "length (filter (\<lambda>c. c \<le> e) cs) \<le> length (filter (\<lambda>c. c \<le> s) cs)"
    using assms(2) by (induction cs) auto
  show ?case
  proof (cases "s \<in> set cs")
    case True
    with Cons.IH assms(2) show ?thesis by auto
  next
    case False
    with Cons.prems have "c = s" by simp
    with mono assms(2) show ?thesis by auto
  qed
qed

lemma compress_inverted:
  assumes "sorted points" and "s \<in> set points" and "e < s"
  shows "compress points e < compress points s"
  using filter_le_strict [OF assms(2,3)] assms(1) by (simp add: compress_def bisect_right_sorted)

lemma filter_le_mono:
  fixes xs :: "int list"
  assumes "c \<le> s"
  shows "length (filter (\<lambda>x. x \<le> c) xs) \<le> length (filter (\<lambda>x. x \<le> s) xs)"
  using assms by (induction xs) auto

lemma compress_separated:
  assumes "sorted points" and "c \<in> set points" and "e < c" and "c \<le> s"
  shows "compress points e < compress points s"
proof -
  have "compress points e < compress points c"
    by (rule compress_inverted [OF assms(1,2,3)])
  also have "compress points c \<le> compress points s"
    using filter_le_mono [OF assms(4), of points] assms(1)
    by (simp add: compress_def bisect_right_sorted)
  finally show ?thesis .
qed

text \<open>
  Claim C7: inserting an inverted interval (\<open>start > end\<close>) leaves the node-count array
  unchanged, so it contributes zero to \<open>stab_query\<close> at every point. The coordinates are
  sorted and, as the coordinate set is derived from all interval endpoints, the start of the
  interval is a coordinate; what the proof needs is only that some coordinate \<open>c\<close> lies in
  \<open>(end, start]\<close>, which the start itself does. Then the rank of the start exceeds the rank of
  the end and the loop of \<^verbatim>\<open>insert\<close> never runs: the constructor builds the same tree with or
  without the interval, wherever it stands among the segments, inserting it into the built tree
  returns the tree unchanged, and every query has the same outcome.
\<close>

theorem inverted_interval_no_change:
  assumes "sorted points" and "e < s" and "\<exists>c\<in>set points. e < c \<and> c \<le> s"
  shows "SegmentTree points (xs @ (s, e) # ys) = SegmentTree points (xs @ ys)
       \<and> (\<forall>T. SegmentTree points (xs @ ys) = Inr T \<longrightarrow>
              insert_seg T (compress (st_points T) s) (compress (st_points T) e) = Inr T)
       \<and> query_after_build points (xs @ (s, e) # ys) p = query_after_build points (xs @ ys) p"
proof -
  from assms(3) obtain c where "c \<in> set points" "e < c" "c \<le> s" by blast
  then have lt: "compress points e < compress points s"
    by (rule compress_separated [OF assms(1)])
  then have "marks (compress points s + n) (compress points e + n) i = 0" for n i
    by (simp add: marks_done)
  then have same: "SegmentTree points (xs @ (s, e) # ys) = SegmentTree points (xs @ ys)"
    by (simp add: SegmentTree_marks)
  moreover have "insert_seg T (compress (st_points T) s) (compress (st_points T) e) = Inr T"
    if "SegmentTree points (xs @ ys) = Inr T" for T
    using lt SegmentTree_fields(2) [OF that] by (simp add: insert_seg_def insert_loop_done)
  moreover have "query_after_build points (xs @ (s, e) # ys) p
      = query_after_build points (xs @ ys) p"
    by (simp only: query_after_build_def same)
  ultimately show ?thesis by blast
qed

theorem inverted_interval_no_change_witness:
  "sorted [1, 3, 5 :: int] \<and> (1::int) < 5 \<and> (5::int) \<in> set [1, 3, 5] \<and> (1::int) < 5 \<and> (5::int) \<le> 5
   \<and> SegmentTree [1, 3, 5] ([(1, 3)] @ (5, 1) # [(3, 5)]) = SegmentTree [1, 3, 5] ([(1, 3)] @ [(3, 5)])
   \<and> insert_seg \<lparr>st_total = 5, st_tree = [0, 0, 1, 1, 1, 0, 0], st_N = 1, st_points = [1, 3, 5]\<rparr>
        (compress [1, 3, 5] 5) (compress [1, 3, 5] 1)
      = Inr \<lparr>st_total = 5, st_tree = [0, 0, 1, 1, 1, 0, 0], st_N = 1, st_points = [1, 3, 5]\<rparr>"
proof -
  have srt: "sorted [1, 3, 5 :: int]" by simp
  have inv: "(1::int) < 5" by simp
  have sep: "\<exists>c\<in>set [1, 3, 5 :: int]. 1 < c \<and> c \<le> 5" by simp
  have built: "SegmentTree [1, 3, 5] ([(1, 3)] @ [(3, 5)]) =
      Inr \<lparr>st_total = 5, st_tree = [0, 0, 1, 1, 1, 0, 0], st_N = 1, st_points = [1, 3, 5]\<rparr>"
    by code_simp
  show ?thesis
    using inverted_interval_no_change [OF srt inv sep, of "[(1, 3)]" "[(3, 5)]"] built by simp
qed

text \<open>For a whole build inside the data model (every start a coordinate): the inverted
  segments can be left out.\<close>

lemma sum_list_filter_zero:
  fixes f :: "'a \<Rightarrow> int"
  shows "\<forall>x\<in>set xs. \<not> P x \<longrightarrow> f x = 0 \<Longrightarrow>
     sum_list (map f (filter P xs)) = sum_list (map f xs)"
  by (induction xs) auto

lemma inverted_segments_contribute_nothing:
  assumes "sorted points" and "\<forall>q\<in>set segs. fst q \<in> set points"
  shows "SegmentTree points segs = SegmentTree points (filter (\<lambda>q. fst q \<le> snd q) segs)"
proof -
  have "marks (compress points (fst q) + n) (compress points (snd q) + n) i = 0"
    if "q \<in> set segs" and "\<not> fst q \<le> snd q" for q n i
  proof -
    from that assms(2) have "fst q \<in> set points" "snd q < fst q" by auto
    then have "compress points (snd q) < compress points (fst q)"
      by (intro compress_inverted [OF assms(1)])
    then show ?thesis by (simp add: marks_done)
  qed
  then have "sum_list (map (\<lambda>q. marks (compress points (fst q) + n)
                 (compress points (snd q) + n) i) (filter (\<lambda>q. fst q \<le> snd q) segs))
      = sum_list (map (\<lambda>q. marks (compress points (fst q) + n)
                 (compress points (snd q) + n) i) segs)" for n i
    by (intro sum_list_filter_zero) blast
  then show ?thesis by (simp add: SegmentTree_marks)
qed

text \<open>The coordinate between the endpoints is needed. Over the coordinates
  \<open>1, 5, 10, 15, 20\<close> the pair \<open>(7, 6)\<close>, neither of whose endpoints is a coordinate, has both
  endpoints compressed to rank 3, so \<open>l = r = 6\<close>, node 6 is incremented and the query at 7
  counts it. No caller in the source passes such a pair.\<close>

lemma inverted_interval_between_coordinates:
  "query_after_build [1, 5, 10, 15, 20] [(7, 6)] 7 = Some (Inr 1)
   \<and> query_after_build [1, 5, 10, 15, 20] [] 7 = Some (Inr 0)"
proof -
  have with_seg: "SegmentTree [1, 5, 10, 15, 20] [(7, 6)] =
      Inr \<lparr>st_total = 9, st_tree = [0, 0, 0, 0, 0, 0, 1, 0, 0, 0, 0], st_N = 3,
           st_points = [1, 5, 10, 15, 20]\<rparr>"
    by code_simp
  have without: "SegmentTree [1, 5, 10, 15, 20] [] =
      Inr \<lparr>st_total = 9, st_tree = [0, 0, 0, 0, 0, 0, 0, 0, 0, 0, 0], st_N = 3,
           st_points = [1, 5, 10, 15, 20]\<rparr>"
    by code_simp
  have leaf: "bisect_right [1, 5, 10, 15, 20] 7 = 2"
    by (simp add: bisect_right_def bisect_loop.simps)
  have l3: "\<lfloor>ln (3::real)\<rfloor> = 1" using floor_ln_eqI [of 1 3] by simp
  have l6: "\<lfloor>ln (6::real)\<rfloor> = 1" using floor_ln_eqI [of 1 6] by simp
  have stop: "complete_node st 6 = Inr False" "complete_node st 3 = Inr False"
    "complete_node st 1 = Inr True" if "st_N st = 3" for st
    using that by (simp_all add: complete_node_odd l3 l6)
  show ?thesis
    by (simp add: query_after_build_def with_seg without stab_query_def query_leaf_def leaf
        stab_query_loop.simps stop py_get_def py_index_def)
qed

section \<open>Order of insertion\<close>

text \<open>
  Claim C8: two orderings of the same multiset of intervals build the same tree (the same
  array and the same other fields), hence give the same result for every query.
\<close>

theorem order_independence:
  assumes "mset segs1 = mset segs2"
  shows "SegmentTree points segs1 = SegmentTree points segs2
       \<and> query_after_build points segs1 p = query_after_build points segs2 p"
proof -
  have "sum_list (map f segs1) = sum_list (map f segs2)" for f :: "int \<times> int \<Rightarrow> int"
  proof -
    have "sum_list (map f segs1) = sum_mset (image_mset f (mset segs1))"
      by (simp flip: sum_mset_sum_list)
    also have "\<dots> = sum_list (map f segs2)"
      by (simp add: assms flip: sum_mset_sum_list)
    finally show ?thesis .
  qed
  then have "SegmentTree points segs1 = SegmentTree points segs2"
    by (simp add: SegmentTree_marks)
  then show ?thesis by (simp add: query_after_build_def)
qed

theorem order_independence_witness:
  "mset [(1, 3), (3, 5 :: int)] = mset [(3, 5), (1 :: int, 3)]
   \<and> SegmentTree [1, 3, 5] [(1, 3), (3, 5)] = SegmentTree [1, 3, 5] [(3, 5), (1, 3)]
   \<and> query_after_build [1, 3, 5] [(1, 3), (3, 5)] 3 = query_after_build [1, 3, 5] [(3, 5), (1, 3)] 3"
proof -
  have m: "mset [(1, 3), (3, 5 :: int)] = mset [(3, 5), (1 :: int, 3)]" by simp
  show ?thesis using m order_independence [OF m, of "[1, 3, 5]" 3] by simp
qed

section \<open>Termination of the ascent\<close>

lemma complete_node_nonpos: "node \<le> 0 \<Longrightarrow> \<exists>e. complete_node st node = Inl e"
  by (simp add: complete_node_def py_log_def split: sum.splits)

lemma stab_query_loop_total: "\<exists>res. stab_query_loop st node cnt = Some res"
proof (induction "nat node" arbitrary: node cnt rule: less_induct)
  case less
  show ?case
  proof (cases "complete_node st node")
    case (Inl e)
    then show ?thesis by (subst stab_query_loop.simps) simp
  next
    case c: (Inr c)
    then have pos: "0 < node" using complete_node_nonpos [of node st] by force
    show ?thesis
    proof (cases c)
      case True
      with c show ?thesis by (subst stab_query_loop.simps) simp
    next
      case False
      show ?thesis
      proof (cases "py_get (st_tree st) node")
        case (Inl e)
        with c False show ?thesis by (subst stab_query_loop.simps) simp
      next
        case v: (Inr v)
        show ?thesis
        proof (cases "node div 2 = 0")
          case True
          with c False v show ?thesis by (subst stab_query_loop.simps) simp
        next
          case nz: False
          have "nat (node div 2) < nat node" using pos by simp
          from less [OF this, of "cnt + v"]
          obtain res where "stab_query_loop st (node div 2) (cnt + v) = Some res" by blast
          with c False v nz show ?thesis by (subst stab_query_loop.simps) simp
        qed
      qed
    qed
  qed
qed

text \<open>
  Claim C10: the ascent of \<open>stab_query\<close> terminates for every tree and every query point.
  The loop either raises, returns, or goes on with \<open>node div 2\<close>, which is smaller than a
  positive \<open>node\<close>; at a node \<open>\<le> 0\<close> the stopping rule raises. So the result is never
  \<open>None\<close>, from any node and any count so far.
\<close>

theorem stab_query_terminates:
  "(\<exists>res. stab_query st point = Some res) \<and> (\<forall>node cnt. \<exists>res. stab_query_loop st node cnt = Some res)"
  by (simp add: stab_query_def stab_query_loop_total)

section \<open>The reference scenario\<close>

lemma reference_points_shape:
  assumes "\<forall>x\<in>set sample. 10000 \<le> x \<and> x < 1000000"
  shows "reference_points sample =
     [3, 4, 6, 7, 8, 9, 10, 20, 50, 76, 89, 1000] @ sort sample @ [7000000]"
  unfolding reference_points_def
proof (rule properties_for_sort)
  show "mset ([3, 4, 6, 7, 8, 9, 10, 20, 50, 76, 89, 1000] @ sort sample @ [7000000]) =
        mset (sample @ [3, 4, 6, 7, 8, 9, 10, 20, 50, 76, 89, 1000, 7000000])"
    by simp
  show "sorted ([3, 4, 6, 7, 8, 9, 10, 20, 50, 76, 89, 1000] @ sort sample @ [7000000])"
    using assms by (auto simp: sorted_append)
qed

lemma count_le_low:
  fixes rs :: "int list"
  assumes "\<forall>x\<in>set rs. 10000 \<le> x" and "x < 10000"
  shows "filter (\<lambda>c. c \<le> x) rs = []"
  using assms by (auto simp: filter_empty_conv)

lemma count_le_high:
  fixes rs :: "int list"
  assumes "\<forall>y\<in>set rs. y < 1000000" and "1000000 \<le> x"
  shows "filter (\<lambda>c. c \<le> x) rs = rs"
  using assms by (auto simp: filter_id_conv)

lemma count_le_10000:
  fixes rs :: "int list"
  assumes "\<forall>x\<in>set rs. 10000 \<le> x" and "distinct rs"
  shows "length (filter (\<lambda>c. c \<le> 10000) rs) = 0 \<or> length (filter (\<lambda>c. c \<le> 10000) rs) = 1"
proof -
  have "{x. x \<le> 10000} \<inter> set rs \<subseteq> {10000}" using assms(1) by auto
  then have "card ({x. x \<le> 10000} \<inter> set rs) \<le> card {10000::int}"
    by (intro card_mono) auto
  then have "length (filter (\<lambda>c. c \<le> 10000) rs) \<le> 1"
    using assms(2) by (simp add: distinct_length_filter)
  then show ?thesis by linarith
qed

lemma reference_ranks:
  assumes "\<forall>x\<in>set sample. 10000 \<le> x \<and> x < 1000000" and "length sample = 100000"
    and "distinct sample"
  shows "bisect_right (reference_points sample) 3 = 1"
    and "bisect_right (reference_points sample) 4 = 2"
    and "bisect_right (reference_points sample) 6 = 3"
    and "bisect_right (reference_points sample) 7 = 4"
    and "bisect_right (reference_points sample) 10 = 7"
    and "bisect_right (reference_points sample) 15 = 7"
    and "bisect_right (reference_points sample) 20 = 8"
    and "bisect_right (reference_points sample) 50 = 9"
    and "bisect_right (reference_points sample) 1000 = 12"
    and "bisect_right (reference_points sample) 7000000 = 100013"
    and "bisect_right (reference_points sample) 10000 = 12
         \<or> bisect_right (reference_points sample) 10000 = 13"
proof -
  let ?rs = "sort sample"
  have shape: "reference_points sample =
     [3, 4, 6, 7, 8, 9, 10, 20, 50, 76, 89, 1000] @ ?rs @ [7000000]"
    by (rule reference_points_shape [OF assms(1)])
  have srt: "sorted (reference_points sample)" by (simp add: reference_points_def)
  have lo: "\<forall>x\<in>set ?rs. 10000 \<le> x" and hi: "\<forall>y\<in>set ?rs. y < 1000000"
    using assms(1) by auto
  have low: "filter (\<lambda>c. c \<le> x) ?rs = []" if "x < 10000" for x
    using count_le_low [OF lo that] .
  have cnt: "bisect_right (reference_points sample) x =
      int (length (filter (\<lambda>c. c \<le> x)
        ([3, 4, 6, 7, 8, 9, 10, 20, 50, 76, 89, 1000] @ ?rs @ [7000000])))" for x
  proof -
    have "bisect_right (reference_points sample) x =
        int (length (filter (\<lambda>c. c \<le> x) (reference_points sample)))"
      by (rule bisect_right_sorted [OF srt])
    also have "\<dots> = int (length (filter (\<lambda>c. c \<le> x)
        ([3, 4, 6, 7, 8, 9, 10, 20, 50, 76, 89, 1000] @ ?rs @ [7000000])))"
      by (simp only: shape)
    finally show ?thesis .
  qed
  show "bisect_right (reference_points sample) 3 = 1"
    by (simp add: cnt low)
  show "bisect_right (reference_points sample) 4 = 2"
    by (simp add: cnt low)
  show "bisect_right (reference_points sample) 6 = 3"
    by (simp add: cnt low)
  show "bisect_right (reference_points sample) 7 = 4"
    by (simp add: cnt low)
  show "bisect_right (reference_points sample) 10 = 7"
    by (simp add: cnt low)
  show "bisect_right (reference_points sample) 15 = 7"
    by (simp add: cnt low)
  show "bisect_right (reference_points sample) 20 = 8"
    by (simp add: cnt low)
  show "bisect_right (reference_points sample) 50 = 9"
    by (simp add: cnt low)
  show "bisect_right (reference_points sample) 1000 = 12"
    by (simp add: cnt low)
  show "bisect_right (reference_points sample) 7000000 = 100013"
    using count_le_high [OF hi, of 7000000] assms(2)
    by (simp add: cnt)
  show "bisect_right (reference_points sample) 10000 = 12
         \<or> bisect_right (reference_points sample) 10000 = 13"
    using count_le_10000 [OF lo] assms(3)
    by (auto simp add: cnt)
qed

lemma reference_logs:
  shows "\<lfloor>ln (1::real)\<rfloor> = 0"
    and "\<lfloor>ln (3::real)\<rfloor> = 1"
    and "\<lfloor>ln (6::real)\<rfloor> = 1"
    and "\<lfloor>ln (12::real)\<rfloor> = 2"
    and "\<lfloor>ln (24::real)\<rfloor> = 3"
    and "\<lfloor>ln (48::real)\<rfloor> = 3"
    and "\<lfloor>ln (97::real)\<rfloor> = 4"
    and "\<lfloor>ln (195::real)\<rfloor> = 5"
    and "\<lfloor>ln (390::real)\<rfloor> = 5"
    and "\<lfloor>ln (781::real)\<rfloor> = 6"
    and "\<lfloor>ln (1562::real)\<rfloor> = 7"
    and "\<lfloor>ln (3125::real)\<rfloor> = 8"
    and "\<lfloor>ln (6250::real)\<rfloor> = 8"
    and "\<lfloor>ln (6251::real)\<rfloor> = 8"
    and "\<lfloor>ln (12501::real)\<rfloor> = 9"
    and "\<lfloor>ln (12502::real)\<rfloor> = 9"
    and "\<lfloor>ln (12503::real)\<rfloor> = 9"
    and "\<lfloor>ln (25003::real)\<rfloor> = 10"
    and "\<lfloor>ln (25004::real)\<rfloor> = 10"
    and "\<lfloor>ln (25006::real)\<rfloor> = 10"
    and "\<lfloor>ln (50005::real)\<rfloor> = 10"
    and "\<lfloor>ln (50006::real)\<rfloor> = 10"
    and "\<lfloor>ln (50007::real)\<rfloor> = 10"
    and "\<lfloor>ln (50008::real)\<rfloor> = 10"
    and "\<lfloor>ln (50009::real)\<rfloor> = 10"
    and "\<lfloor>ln (50012::real)\<rfloor> = 10"
    and "\<lfloor>ln (100013::real)\<rfloor> = 11"
    and "\<lfloor>ln (100014::real)\<rfloor> = 11"
    and "\<lfloor>ln (100015::real)\<rfloor> = 11"
    and "\<lfloor>ln (100016::real)\<rfloor> = 11"
    and "\<lfloor>ln (100019::real)\<rfloor> = 11"
    and "\<lfloor>ln (100024::real)\<rfloor> = 11"
    and "\<lfloor>ln (100025::real)\<rfloor> = 11"
proof -
  show "\<lfloor>ln (1::real)\<rfloor> = 0" using floor_ln_eqI [of 0 1] by simp
  show "\<lfloor>ln (3::real)\<rfloor> = 1" using floor_ln_eqI [of 1 3] by simp
  show "\<lfloor>ln (6::real)\<rfloor> = 1" using floor_ln_eqI [of 1 6] by simp
  show "\<lfloor>ln (12::real)\<rfloor> = 2" using floor_ln_eqI [of 2 12] by simp
  show "\<lfloor>ln (24::real)\<rfloor> = 3" using floor_ln_eqI [of 3 24] by simp
  show "\<lfloor>ln (48::real)\<rfloor> = 3" using floor_ln_eqI [of 3 48] by simp
  show "\<lfloor>ln (97::real)\<rfloor> = 4" using floor_ln_eqI [of 4 97] by simp
  show "\<lfloor>ln (195::real)\<rfloor> = 5" using floor_ln_eqI [of 5 195] by simp
  show "\<lfloor>ln (390::real)\<rfloor> = 5" using floor_ln_eqI [of 5 390] by simp
  show "\<lfloor>ln (781::real)\<rfloor> = 6" using floor_ln_eqI [of 6 781] by simp
  show "\<lfloor>ln (1562::real)\<rfloor> = 7" using floor_ln_eqI [of 7 1562] by simp
  show "\<lfloor>ln (3125::real)\<rfloor> = 8" using floor_ln_eqI [of 8 3125] by simp
  show "\<lfloor>ln (6250::real)\<rfloor> = 8" using floor_ln_eqI [of 8 6250] by simp
  show "\<lfloor>ln (6251::real)\<rfloor> = 8" using floor_ln_eqI [of 8 6251] by simp
  show "\<lfloor>ln (12501::real)\<rfloor> = 9" using floor_ln_eqI [of 9 12501] by simp
  show "\<lfloor>ln (12502::real)\<rfloor> = 9" using floor_ln_eqI [of 9 12502] by simp
  show "\<lfloor>ln (12503::real)\<rfloor> = 9" using floor_ln_eqI [of 9 12503] by simp
  show "\<lfloor>ln (25003::real)\<rfloor> = 10" using floor_ln_eqI [of 10 25003] by simp
  show "\<lfloor>ln (25004::real)\<rfloor> = 10" using floor_ln_eqI [of 10 25004] by simp
  show "\<lfloor>ln (25006::real)\<rfloor> = 10" using floor_ln_eqI [of 10 25006] by simp
  show "\<lfloor>ln (50005::real)\<rfloor> = 10" using floor_ln_eqI [of 10 50005] by simp
  show "\<lfloor>ln (50006::real)\<rfloor> = 10" using floor_ln_eqI [of 10 50006] by simp
  show "\<lfloor>ln (50007::real)\<rfloor> = 10" using floor_ln_eqI [of 10 50007] by simp
  show "\<lfloor>ln (50008::real)\<rfloor> = 10" using floor_ln_eqI [of 10 50008] by simp
  show "\<lfloor>ln (50009::real)\<rfloor> = 10" using floor_ln_eqI [of 10 50009] by simp
  show "\<lfloor>ln (50012::real)\<rfloor> = 10" using floor_ln_eqI [of 10 50012] by simp
  show "\<lfloor>ln (100013::real)\<rfloor> = 11" using floor_ln_eqI [of 11 100013] by simp
  show "\<lfloor>ln (100014::real)\<rfloor> = 11" using floor_ln_eqI [of 11 100014] by simp
  show "\<lfloor>ln (100015::real)\<rfloor> = 11" using floor_ln_eqI [of 11 100015] by simp
  show "\<lfloor>ln (100016::real)\<rfloor> = 11" using floor_ln_eqI [of 11 100016] by simp
  show "\<lfloor>ln (100019::real)\<rfloor> = 11" using floor_ln_eqI [of 11 100019] by simp
  show "\<lfloor>ln (100024::real)\<rfloor> = 11" using floor_ln_eqI [of 11 100024] by simp
  show "\<lfloor>ln (100025::real)\<rfloor> = 11" using floor_ln_eqI [of 11 100025] by simp
qed

lemma reference_marks:
  shows "marks 100013 100014 i = (if i = 100013 then 1 else 0) + (if i = 100014 then 1 else 0)"
    and "marks 100013 100015 i = (if i = 100013 then 1 else 0) + (if i = 50007 then 1 else 0)"
    and "marks 100019 100020 i = (if i = 100019 then 1 else 0) + (if i = 100020 then 1 else 0)"
    and "marks 100015 100021 i = (if i = 100015 then 1 else 0) + (if i = 50010 then 1 else 0)
           + (if i = 25004 then 1 else 0)"
    and "marks 100013 100013 i = (if i = 100013 then 1 else 0)"
    and "marks 100024 200025 i =
           (if i \<in> {100012, 25002, 12503, 12500, 3124, 1563, 780, 391, 194, 96, 49, 25, 13, 7, 2}
            then 1 else 0)"
  by (simp_all add: marks.simps)

lemma ascent_step:
  assumes "complete_node st node = Inr False"
    and "0 \<le> node" and "node < int (length (st_tree st))" and "node div 2 \<noteq> 0"
  shows "stab_query_loop st node cnt = stab_query_loop st (node div 2) (cnt + st_tree st ! nat node)"
  using assms by (subst stab_query_loop.simps) (simp add: py_get_def py_index_def)

lemma ascent_last:
  assumes "complete_node st node = Inr False"
    and "0 \<le> node" and "node < int (length (st_tree st))" and "node div 2 = 0"
  shows "stab_query_loop st node cnt = Some (Inr (cnt + st_tree st ! nat node))"
  using assms by (subst stab_query_loop.simps) (simp add: py_get_def py_index_def)

lemma reference_ascent:
  assumes N: "st_N T = 100011" and len: "length (st_tree T) = 200027"
    and val: "\<forall>j<200027. st_tree T ! j =
        (4 * marks 100013 100014 (int j) + marks 100013 100015 (int j)
          + marks 100019 100020 (int j) + marks 100015 100021 (int j)
          + marks 100013 100013 (int j) + marks 100024 200025 (int j))"
  shows "stab_query_loop T 100019 0 = Some (Inr 2)"
    and "stab_query_loop T 100013 0 = Some (Inr 6)"
    and "stab_query_loop T 100014 0 = Some (Inr 5)"
    and "stab_query_loop T 100016 0 = Some (Inr 1)"
    and "stab_query_loop T 100015 0 = Some (Inr 2)"
    and "stab_query_loop T 100024 0 = Some (Inr 1)"
    and "stab_query_loop T 100025 0 = Some (Inr 1)"
proof -
  have odd: "odd (st_N T)" and half: "st_N T div 2 = 50005" by (simp_all add: N)
  have stop: "complete_node T node =
      Inr (node = (if \<lfloor>ln (real_of_int node)\<rfloor> \<le> 10
                   then 50005 div 2 ^ nat (10 - \<lfloor>ln (real_of_int node)\<rfloor>)
                   else 50005 * 2 ^ nat (\<lfloor>ln (real_of_int node)\<rfloor> - 10)))"
    if "0 < node" for node
    using complete_node_odd [OF odd _ that] by (simp add: half reference_logs)
  have get: "st_tree T ! j =
        (4 * marks 100013 100014 (int j) + marks 100013 100015 (int j)
          + marks 100019 100020 (int j) + marks 100015 100021 (int j)
          + marks 100013 100013 (int j) + marks 100024 200025 (int j))" if "j < 200027" for j
    using val that by blast
  have top: "stab_query_loop T 3125 c = Some (Inr c)" for c
    by (simp add: ascent_step ascent_last stop len get reference_logs reference_marks)
  have n6250: "stab_query_loop T 6250 c = Some (Inr c)" for c
    by (simp add: ascent_step stop len get reference_logs reference_marks top)
  have n6251: "stab_query_loop T 6251 c = Some (Inr c)" for c
    by (simp add: ascent_step stop len get reference_logs reference_marks top)
  have n25003: "stab_query_loop T 25003 c = Some (Inr c)" for c
    by (simp add: ascent_step stop len get reference_logs reference_marks n6250)
  have n25004: "stab_query_loop T 25004 c = Some (Inr (c + 1))" for c
    by (simp add: ascent_step stop len get reference_logs reference_marks n6251)
  have n25006: "stab_query_loop T 25006 c = Some (Inr (c + 1))" for c
    by (simp add: ascent_step stop len get reference_logs reference_marks n6251)
  show "stab_query_loop T 100019 0 = Some (Inr 2)"
    by (simp add: ascent_step stop len get reference_logs reference_marks n25004)
  show "stab_query_loop T 100013 0 = Some (Inr 6)"
    by (simp add: ascent_step stop len get reference_logs reference_marks n25003)
  show "stab_query_loop T 100014 0 = Some (Inr 5)"
    by (simp add: ascent_step stop len get reference_logs reference_marks n25003)
  show "stab_query_loop T 100016 0 = Some (Inr 1)"
    by (simp add: ascent_step stop len get reference_logs reference_marks n25004)
  show "stab_query_loop T 100015 0 = Some (Inr 2)"
    by (simp add: ascent_step stop len get reference_logs reference_marks n25003)
  show "stab_query_loop T 100024 0 = Some (Inr 1)"
    by (simp add: ascent_step stop len get reference_logs reference_marks n25006)
  show "stab_query_loop T 100025 0 = Some (Inr 1)"
    by (simp add: ascent_step stop len get reference_logs reference_marks n25006)
qed

lemma sum_list_all_zero:
  fixes f :: "'a \<Rightarrow> int"
  shows "\<forall>x\<in>set xs. f x = 0 \<Longrightarrow> sum_list (map f xs) = 0"
  by (induction xs) auto

lemma reference_tree:
  assumes bounds: "\<forall>x\<in>set sample. 10000 \<le> x \<and> x < 1000000"
    and size: "length sample = 100000" and dist: "distinct sample"
    and inverted: "\<forall>p\<in>set filler. fst p \<in> set sample \<and> snd p < fst p"
  shows "\<exists>T. SegmentTree (reference_points sample) (reference_segments filler) = Inr T
           \<and> st_N T = 100011 \<and> st_points T = reference_points sample
           \<and> length (st_tree T) = 200027
           \<and> (\<forall>j<200027. st_tree T ! j =
        (4 * marks 100013 100014 (int j) + marks 100013 100015 (int j)
          + marks 100019 100020 (int j) + marks 100015 100021 (int j)
          + marks 100013 100013 (int j) + marks 100024 200025 (int j)))"
proof -
  let ?pts = "reference_points sample"
  let ?F = "\<lambda>i. sum_list (map (\<lambda>p. marks (compress ?pts (fst p) + st_N (init_tree ?pts))
                                   (compress ?pts (snd p) + st_N (init_tree ?pts)) (int i))
                           (reference_segments filler))"
  define K where "K = 2 * length ?pts + 1"
  define T where "T = (init_tree ?pts)\<lparr>st_tree := map ?F [0..<K]\<rparr>"
  have len: "length ?pts = 100013" by (simp add: reference_points_def size)
  then have ne: "?pts \<noteq> []" by auto
  have N0: "st_N (init_tree ?pts) = 100011" using ne len by (simp add: init_tree_N)
  have K: "K = 200027" by (simp add: K_def len)
  have srt: "sorted ?pts" by (simp add: reference_points_def)
  have built: "SegmentTree ?pts (reference_segments filler) = Inr T"
    unfolding T_def K_def by (rule SegmentTree_marks)
  have zero: "marks (compress ?pts (fst p) + n) (compress ?pts (snd p) + n) i = 0"
    if "p \<in> set filler" for p n i
  proof -
    from that inverted have "fst p \<in> set ?pts" and "snd p < fst p"
      by (auto simp: reference_points_def)
    then have "compress ?pts (snd p) < compress ?pts (fst p)"
      by (intro compress_inverted [OF srt])
    then show ?thesis by (simp add: marks_done)
  qed
  have fz: "sum_list (map (\<lambda>p. marks (compress ?pts (fst p) + n)
        (compress ?pts (snd p) + n) i) filler) = 0" for n i
    by (rule sum_list_all_zero) (simp add: zero)
  have ranks: "compress ?pts 3 = 2" "compress ?pts 4 = 3" "compress ?pts 6 = 4"
    "compress ?pts 10 = 8" "compress ?pts 20 = 9" "compress ?pts 50 = 10"
    "compress ?pts 1000 = 13" "compress ?pts 7000000 = 100014"
    using reference_ranks [OF bounds size dist] by (simp_all add: compress_def)
  have F: "?F j =
        (4 * marks 100013 100014 (int j) + marks 100013 100015 (int j)
          + marks 100019 100020 (int j) + marks 100015 100021 (int j)
          + marks 100013 100013 (int j) + marks 100024 200025 (int j))" for j
    by (simp add: reference_segments_def fz N0 ranks)
  have "st_tree T ! j =
        (4 * marks 100013 100014 (int j) + marks 100013 100015 (int j)
          + marks 100019 100020 (int j) + marks 100015 100021 (int j)
          + marks 100013 100013 (int j) + marks 100024 200025 (int j))" if "j < 200027" for j
  proof -
    from that K have "j < K" by simp
    then have "st_tree T ! j = ?F j" by (simp add: T_def)
    then show ?thesis by (simp only: F)
  qed
  moreover have "st_N T = 100011" by (simp add: T_def N0)
  moreover have "st_points T = ?pts" by (simp add: T_def init_tree_points)
  moreover have "length (st_tree T) = 200027"
  proof -
    have "length (st_tree T) = K" by (simp add: T_def)
    then show ?thesis by (simp only: K)
  qed
  ultimately show ?thesis using built by blast
qed

text \<open>
  Claim C2: in the reference scenario of the test suite (the thirteen fixed coordinates among
  \<open>100000\<close> distinct drawn ones between \<open>10000\<close> and \<open>999999\<close>; four copies of \<open>(3,4)\<close>,
  then \<open>(3,6)\<close>, \<open>(10,20)\<close>, \<open>(6,50)\<close>, \<open>(3,3)\<close> and \<open>(1000,7000000)\<close> after any inverted
  filler drawn from the coordinates), the built tree answers \<open>stab_query(15) = 2\<close>,
  \<open>stab_query(3) = 6\<close>, \<open>stab_query(4) = 5\<close>, \<open>stab_query(7) = 1\<close>, \<open>stab_query(6) = 2\<close>
  and \<open>stab_query(10000) = 1\<close>. Here \<open>N = 100011\<close> is odd, \<^verbatim>\<open>lowest_incomplete\<close> is
  \<open>50005\<close>, and \<^verbatim>\<open>complete\<close> is false at every node of the six ascents, which therefore
  run up to node 1.
\<close>

theorem reference_scenario:
  assumes bounds: "\<forall>x\<in>set sample. 10000 \<le> x \<and> x < 1000000"
    and size: "length sample = 100000" and dist: "distinct sample"
    and inverted: "\<forall>p\<in>set filler. fst p \<in> set sample \<and> snd p < fst p"
  shows "query_after_build (reference_points sample) (reference_segments filler) 15 = Some (Inr 2)
       \<and> query_after_build (reference_points sample) (reference_segments filler) 3 = Some (Inr 6)
       \<and> query_after_build (reference_points sample) (reference_segments filler) 4 = Some (Inr 5)
       \<and> query_after_build (reference_points sample) (reference_segments filler) 7 = Some (Inr 1)
       \<and> query_after_build (reference_points sample) (reference_segments filler) 6 = Some (Inr 2)
       \<and> query_after_build (reference_points sample) (reference_segments filler) 10000 = Some (Inr 1)"
proof -
  obtain T where built: "SegmentTree (reference_points sample) (reference_segments filler) = Inr T"
    and N: "st_N T = 100011" and pts: "st_points T = reference_points sample"
    and len: "length (st_tree T) = 200027"
    and val: "\<forall>j<200027. st_tree T ! j =
        (4 * marks 100013 100014 (int j) + marks 100013 100015 (int j)
          + marks 100019 100020 (int j) + marks 100015 100021 (int j)
          + marks 100013 100013 (int j) + marks 100024 200025 (int j))"
    using reference_tree [OF assms] by blast
  note ranks = reference_ranks [OF bounds size dist]
  note ascent = reference_ascent [OF N len val]
  have q: "query_after_build (reference_points sample) (reference_segments filler) p =
      stab_query_loop T (query_leaf T p) 0" for p
    by (simp add: query_after_build_def built stab_query_def)
  have leaf: "query_leaf T p = bisect_right (reference_points sample) p + 100012" for p
    by (simp add: query_leaf_def pts N)
  have leaves: "query_leaf T 15 = 100019" "query_leaf T 3 = 100013" "query_leaf T 4 = 100014"
    "query_leaf T 7 = 100016" "query_leaf T 6 = 100015"
    using ranks by (simp_all add: leaf)
  have "query_leaf T 10000 = 100024 \<or> query_leaf T 10000 = 100025"
    using ranks(11) by (auto simp: leaf)
  then have "stab_query_loop T (query_leaf T 10000) 0 = Some (Inr 1)"
    using ascent(6,7) by auto
  then show ?thesis by (simp add: q leaves ascent)
qed

theorem reference_scenario_witness:
  "query_after_build (reference_points [10000..109999]) (reference_segments [(10001, 10000)]) 15
      = Some (Inr 2)
   \<and> query_after_build (reference_points [10000..109999]) (reference_segments [(10001, 10000)]) 3
      = Some (Inr 6)
   \<and> query_after_build (reference_points [10000..109999]) (reference_segments [(10001, 10000)]) 4
      = Some (Inr 5)
   \<and> query_after_build (reference_points [10000..109999]) (reference_segments [(10001, 10000)]) 7
      = Some (Inr 1)
   \<and> query_after_build (reference_points [10000..109999]) (reference_segments [(10001, 10000)]) 6
      = Some (Inr 2)
   \<and> query_after_build (reference_points [10000..109999]) (reference_segments [(10001, 10000)]) 10000
      = Some (Inr 1)"
proof -
  have bounds: "\<forall>x\<in>set [10000..109999]. 10000 \<le> x \<and> x < (1000000::int)"
    by (simp only: set_upto; simp)
  have size: "length [10000..109999] = 100000"
    by (simp only: length_upto; simp)
  have dist: "distinct [10000..109999]" by (rule distinct_upto)
  have inverted: "\<forall>p\<in>set [(10001, 10000::int)]. fst p \<in> set [10000..109999] \<and> snd p < fst p"
    by (simp only: set_upto; simp)
  show ?thesis by (rule reference_scenario [OF bounds size dist inverted])
qed

section \<open>Counts are never negative\<close>

text \<open>The array entries of a built tree are sums of \<open>marks\<close>, hence non-negative
  (\<open>SegmentTree_fields\<close>); the ascent only adds entries to its count.\<close>

lemma py_get_member: "py_get xs i = Inr v \<Longrightarrow> v \<in> set xs"
  by (auto simp: py_get_def py_index_def split: if_splits)

lemma stab_query_loop_nonneg:
  assumes "\<forall>v\<in>set (st_tree st). 0 \<le> v"
  shows "stab_query_loop st node cnt = Some (Inr c) \<Longrightarrow> cnt \<le> c"
proof (induction "nat node" arbitrary: node cnt rule: less_induct)
  case less
  note run = less.prems
  show ?case
  proof (cases "complete_node st node")
    case (Inl e)
    then have "stab_query_loop st node cnt = Some (Inl e)"
      by (subst stab_query_loop.simps) simp
    with run show ?thesis by simp
  next
    case stop: (Inr b)
    then have pos: "0 < node" using complete_node_nonpos [of node st] by force
    show ?thesis
    proof (cases b)
      case True
      with stop have "stab_query_loop st node cnt = Some (Inr cnt)"
        by (subst stab_query_loop.simps) simp
      with run show ?thesis by simp
    next
      case False
      show ?thesis
      proof (cases "py_get (st_tree st) node")
        case (Inl e)
        with stop False have "stab_query_loop st node cnt = Some (Inl e)"
          by (subst stab_query_loop.simps) simp
        with run show ?thesis by simp
      next
        case entry: (Inr v)
        then have v: "0 \<le> v" using py_get_member assms by blast
        show ?thesis
        proof (cases "node div 2 = 0")
          case True
          with stop False entry have "stab_query_loop st node cnt = Some (Inr (cnt + v))"
            by (subst stab_query_loop.simps) simp
          with run v show ?thesis by simp
        next
          case up: False
          with stop False entry
          have "stab_query_loop st node cnt = stab_query_loop st (node div 2) (cnt + v)"
            by (subst stab_query_loop.simps) simp
          with run have next_run: "stab_query_loop st (node div 2) (cnt + v) = Some (Inr c)"
            by simp
          have "nat (node div 2) < nat node" using pos by simp
          from less.hyps [OF this next_run] v show ?thesis by simp
        qed
      qed
    qed
  qed
qed

lemma stab_query_nonneg:
  assumes "SegmentTree points segs = Inr T" and "stab_query T p = Some (Inr c)"
  shows "0 \<le> c"
  using stab_query_loop_nonneg [OF SegmentTree_fields(4) [OF assms(1)]] assms(2)
  by (simp add: stab_query_def)

text \<open>
  Claim C9: every entry of the node-count array is non-negative after build (\<^verbatim>\<open>insert\<close> only
  ever increments counts), and consequently the integer \<open>stab_query\<close> returns is non-negative,
  for every query point. For every coordinate list and every list of segments the constructor
  succeeds, no entry of the array it builds is negative, and no count returned by a query is
  negative.
\<close>

theorem counts_nonneg:
  "\<exists>T. SegmentTree points segs = Inr T
      \<and> (\<forall>v\<in>set (st_tree T). 0 \<le> v)
      \<and> (\<forall>p c. stab_query T p = Some (Inr c) \<longrightarrow> 0 \<le> c)"
proof -
  obtain T where built: "SegmentTree points segs = Inr T"
    using SegmentTree_marks [of points segs] by blast
  show ?thesis
    using built SegmentTree_fields(4) [OF built] stab_query_nonneg [OF built] by blast
qed

theorem counts_nonneg_witness:
  "SegmentTree [1, 2, 3, 4, 5, 6, 7] [(1, 2), (2, 3), (4, 5), (6, 7)] =
      Inr \<lparr>st_total = 13, st_tree = [0, 0, 0, 0, 1, 1, 1, 1, 1, 0, 0, 0, 0, 0, 0], st_N = 5,
           st_points = [1, 2, 3, 4, 5, 6, 7]\<rparr>
   \<and> list_all (\<lambda>v. 0 \<le> v) [0, 0, 0, 0, 1, 1, 1, 1, 1, 0, 0, 0, 0, 0, 0 :: int]
   \<and> stab_query \<lparr>st_total = 13, st_tree = [0, 0, 0, 0, 1, 1, 1, 1, 1, 0, 0, 0, 0, 0, 0], st_N = 5,
           st_points = [1, 2, 3, 4, 5, 6, 7]\<rparr> 4 = Some (Inr 1)
   \<and> (0::int) \<le> 1"
proof -
  let ?T = "\<lparr>st_total = 13, st_tree = [0, 0, 0, 0, 1, 1, 1, 1, 1, 0, 0, 0, 0, 0, 0], st_N = 5,
           st_points = [1, 2, 3, 4, 5, 6, 7]\<rparr>"
  have built: "SegmentTree [1, 2, 3, 4, 5, 6, 7] [(1, 2), (2, 3), (4, 5), (6, 7)] = Inr ?T"
    by code_simp
  have l2: "\<lfloor>ln (2::real)\<rfloor> = 0" using floor_ln_eqI [of 0 2] by simp
  have l5: "\<lfloor>ln (5::real)\<rfloor> = 1" using floor_ln_eqI [of 1 5] by simp
  have l10: "\<lfloor>ln (10::real)\<rfloor> = 2" using floor_ln_eqI [of 2 10] by simp
  have leaf: "bisect_right [1, 2, 3, 4, 5, 6, 7] 4 = 4"
    by (simp add: bisect_right_def bisect_loop.simps)
  have stop: "complete_node ?T 10 = Inr False" "complete_node ?T 5 = Inr False"
    "complete_node ?T 2 = Inr True"
    by (simp_all add: complete_node_odd l2 l5 l10)
  have run: "stab_query ?T 4 = Some (Inr 1)"
    by (simp add: stab_query_def query_leaf_def leaf stab_query_loop.simps stop py_get_def
        py_index_def)
  obtain T where "SegmentTree [1, 2, 3, 4, 5, 6, 7] [(1, 2), (2, 3), (4, 5), (6, 7)] = Inr T"
    and entries: "\<forall>v\<in>set (st_tree T). 0 \<le> v"
    and counts: "\<forall>p c. stab_query T p = Some (Inr c) \<longrightarrow> 0 \<le> c"
    using counts_nonneg [of "[1, 2, 3, 4, 5, 6, 7]" "[(1, 2), (2, 3), (4, 5), (6, 7)]"] by blast
  with built have T: "T = ?T" by simp
  from counts run have "(0::int) \<le> 1" unfolding T by blast
  moreover from entries
  have "list_all (\<lambda>v. 0 \<le> v) [0, 0, 0, 0, 1, 1, 1, 1, 1, 0, 0, 0, 0, 0, 0 :: int]"
    unfolding T by simp
  ultimately show ?thesis using built run by blast
qed

text \<open>When the query returns a count is the matter of the stopping rule, not of the signs.
  With an odd number \<open>n \<ge> 5\<close> of coordinates \<open>N\<close> is odd and \<^verbatim>\<open>lowest_incomplete\<close> is
  positive, so every query returns a count.\<close>

lemma stab_query_loop_returns:
  assumes "odd (st_N st)" and "0 < st_N st div 2"
  shows "0 < node \<Longrightarrow> node < int (length (st_tree st)) \<Longrightarrow>
     \<exists>c. stab_query_loop st node cnt = Some (Inr c)"
proof (induction "nat node" arbitrary: node cnt rule: less_induct)
  case less
  obtain b where stop: "complete_node st node = Inr b"
    using complete_node_odd [OF assms less.prems(1)] by blast
  have entry: "py_get (st_tree st) node = Inr (st_tree st ! nat node)"
    using less.prems by (simp add: py_get_def py_index_def)
  show ?case
  proof (cases "b \<or> node div 2 = 0")
    case True
    with stop entry show ?thesis by (subst stab_query_loop.simps) auto
  next
    case False
    with stop entry
    have step: "stab_query_loop st node cnt =
        stab_query_loop st (node div 2) (cnt + st_tree st ! nat node)"
      by (subst stab_query_loop.simps) simp
    have nz: "node div 2 \<noteq> 0" using False by simp
    have nn: "0 \<le> node div 2" using less.prems(1) by simp
    from nz nn have up: "0 < node div 2" by linarith
    have "nat (node div 2) < nat node" "node div 2 < int (length (st_tree st))"
      using less.prems by simp_all
    from less.hyps [OF this(1) up this(2)] step show ?thesis by simp
  qed
qed

lemma stab_query_returns_odd:
  assumes "odd (length points)" and "5 \<le> length points"
    and "SegmentTree points segs = Inr T"
  shows "\<exists>c. stab_query T p = Some (Inr c) \<and> 0 \<le> c"
proof -
  have ne: "points \<noteq> []" using assms(2) by auto
  have N: "st_N T = int (length points) - 2"
    using SegmentTree_fields(1) [OF assms(3)] ne by simp
  have len: "length (st_tree T) = 2 * length points + 1"
    by (rule SegmentTree_fields(3) [OF assms(3)])
  have pts: "st_points T = points" by (rule SegmentTree_fields(2) [OF assms(3)])
  have odd: "odd (st_N T)" using assms(1) by (simp add: N)
  have half: "0 < st_N T div 2" using assms(2) by (simp add: N)
  have "0 < query_leaf T p" "query_leaf T p < int (length (st_tree T))"
    using bisect_right_range [of points p] assms(2) by (simp_all add: query_leaf_def N len pts)
  from stab_query_loop_returns [OF odd half this, of 0]
  obtain c where c: "stab_query T p = Some (Inr c)" by (auto simp: stab_query_def)
  with stab_query_nonneg [OF assms(3) c] show ?thesis by blast
qed

text \<open>With two coordinates \<open>N = 0\<close>, \<^verbatim>\<open>N & -N\<close> is \<open>0\<close> and \<^verbatim>\<open>lowest_incomplete\<close> raises in
  \<^verbatim>\<open>math.log(0)\<close>: the array holds no negative entry, and the query returns no count.\<close>

lemma stab_query_raises_on_two_points:
  "query_after_build [1, 2] [(1, 2)] 1 = Some (Inl ValueError)
   \<and> SegmentTree [1, 2] [(1, 2)] =
       Inr \<lparr>st_total = 3, st_tree = [0, 1, 0, 0, 0], st_N = 0, st_points = [1, 2]\<rparr>"
proof -
  have built: "SegmentTree [1, 2] [(1, 2)] =
      Inr \<lparr>st_total = 3, st_tree = [0, 1, 0, 0, 0], st_N = 0, st_points = [1, 2]\<rparr>"
    by code_simp
  show ?thesis
    by (simp add: query_after_build_def built stab_query_def stab_query_loop.simps
        complete_node_def lowest_incomplete_def py_log_def)
qed

section \<open>The ascent stays inside the array\<close>

text \<open>The stopping rule raises nothing but \<^verbatim>\<open>ValueError\<close>, and a query of a built tree
  starts below the length of the array and only halves its node: no subscript of the ascent
  raises \<^verbatim>\<open>IndexError\<close>.\<close>

lemma complete_node_error: "complete_node st node = Inl e \<Longrightarrow> e = ValueError"
  by (auto simp: complete_node_def lowest_incomplete_def py_log_def split: sum.splits if_splits)

lemma stab_query_loop_no_index_error:
  assumes "node < int (length (st_tree st))"
  shows "stab_query_loop st node cnt \<noteq> Some (Inl IndexError)"
  using assms
proof (induction "nat node" arbitrary: node cnt rule: less_induct)
  case less
  show ?case
  proof (cases "complete_node st node")
    case (Inl e)
    then have "stab_query_loop st node cnt = Some (Inl ValueError)"
      using complete_node_error [OF Inl] by (subst stab_query_loop.simps) simp
    then show ?thesis by simp
  next
    case stop: (Inr b)
    then have pos: "0 < node" using complete_node_nonpos [of node st] by force
    with less.prems have entry: "py_get (st_tree st) node = Inr (st_tree st ! nat node)"
      by (simp add: py_get_def py_index_def)
    show ?thesis
    proof (cases "b \<or> node div 2 = 0")
      case True
      with stop entry show ?thesis by (subst stab_query_loop.simps) auto
    next
      case False
      with stop entry
      have "stab_query_loop st node cnt =
          stab_query_loop st (node div 2) (cnt + st_tree st ! nat node)"
        by (subst stab_query_loop.simps) simp
      moreover have "nat (node div 2) < nat node" "node div 2 < int (length (st_tree st))"
        using pos less.prems by simp_all
      ultimately show ?thesis using less.hyps by simp
    qed
  qed
qed

lemma stab_query_no_index_error:
  assumes "SegmentTree points segs = Inr T"
  shows "stab_query T p \<noteq> Some (Inl IndexError)"
proof -
  have "query_leaf T p < int (length (st_tree T))"
    using SegmentTree_fields(1,2,3) [OF assms] bisect_right_range [of points p]
    by (auto simp: query_leaf_def split: if_splits)
  then show ?thesis unfolding stab_query_def by (rule stab_query_loop_no_index_error)
qed

end
